theory Spec2Isabelle
  imports Main "HOL-Library.Sublist" "HOL-Library.Char_ord"
begin

section \<open>Go values used by the scanner\<close>

text \<open>
  A Go \<open>[]byte\<close> is a list of 8-bit characters. A \<open>nil\<close> slice (no token) is \<open>None\<close>;
  a slice expression such as \<open>data[a:b]\<close> of a non-nil slice is never \<open>nil\<close>, also when
  it is empty, and is \<open>Some\<close> of the bytes.
\<close>

type_synonym bytes = string

abbreviation LF :: char where
  "LF \<equiv> CHR 0x0A"

text \<open>
  The errors the package and its collaborators produce. \<open>ErrInvalidMboxFormat\<close> is the
  package's own error value; \<open>EOF\<close>, \<open>ErrNegativeAdvance\<close> and \<open>ErrAdvanceTooFar\<close> belong
  to \<open>io\<close> and \<open>bufio\<close>; \<open>ErrOther\<close> stands for any error of the header decoder
  (\<open>net/textproto\<close>) or of \<open>mail.ReadMessage\<close>.
\<close>

datatype error =
    ErrInvalidMboxFormat
  | EOF
  | ErrNegativeAdvance
  | ErrAdvanceTooFar
  | ErrOther string

text \<open>What a split function returns: \<open>(advance, token, err)\<close>.\<close>

type_synonym split_result = "int \<times> bytes option \<times> error option"

type_synonym SplitFunc = "bytes \<Rightarrow> bool \<Rightarrow> split_result"

subsection \<open>Package \<open>bytes\<close>\<close>

text \<open>
  \<open>bytes.Index(s, sep)\<close>: the index of the first instance of \<open>sep\<close> in \<open>s\<close>; Go's \<open>-1\<close>
  is \<open>None\<close>.
\<close>

fun bytes_Index :: "bytes \<Rightarrow> bytes \<Rightarrow> nat option" where
  "bytes_Index [] sep = (if sep = [] then Some 0 else None)"
| "bytes_Index (x # xs) sep =
     (if prefix sep (x # xs) then Some 0 else map_option Suc (bytes_Index xs sep))"

text \<open>\<open>bytes.IndexByte(b, c)\<close>: the index of the first \<open>c\<close> in \<open>b\<close>.\<close>

definition bytes_IndexByte :: "bytes \<Rightarrow> char \<Rightarrow> nat option" where
  "bytes_IndexByte b c =
     (if c \<in> set b then Some (length (takeWhile (\<lambda>x. x \<noteq> c) b)) else None)"

definition bytes_HasPrefix :: "bytes \<Rightarrow> bytes \<Rightarrow> bool" where
  "bytes_HasPrefix s p = prefix p s"

text \<open>A decimal digit, \<open>[0-9]\<close>.\<close>

definition isDigit :: "char \<Rightarrow> bool" where
  "isDigit c \<longleftrightarrow> c \<in> set ''0123456789''"

subsection \<open>Facts about \<open>bytes.Index\<close>\<close>

text \<open>
  \<open>bytes_Index\<close> returns the least offset at which \<open>sep\<close> occurs, and \<open>None\<close> exactly
  when it occurs nowhere.
\<close>

lemma bytes_Index_Some_prefix:
  "bytes_Index xs sep = Some n \<Longrightarrow> n \<le> length xs \<and> prefix sep (drop n xs)"
proof (induction xs arbitrary: n)
  case Nil
  then show ?case by (simp split: if_splits)
next
  case (Cons x xs)
  then show ?case by (cases "prefix sep (x # xs)") auto
qed




lemma bytes_Index_take:
  "bytes_Index xs sep = Some n \<Longrightarrow> take (n + length sep) xs = take n xs @ sep"
proof -
  assume "bytes_Index xs sep = Some n"
  from bytes_Index_Some_prefix [OF this] obtain zs where "drop n xs = sep @ zs"
    by (auto simp: prefix_def)
  then have "take (length sep) (drop n xs) = sep" by simp
  then show ?thesis by (simp add: take_add)
qed

lemma bytes_Index_Some_length:
  "bytes_Index xs sep = Some n \<Longrightarrow> n + length sep \<le> length xs"
proof -
  assume "bytes_Index xs sep = Some n"
  from bytes_Index_Some_prefix [OF this] have "n \<le> length xs" "length sep \<le> length (drop n xs)"
    by (auto dest: prefix_length_le)
  then show ?thesis by simp
qed

subsection \<open>Package \<open>strings\<close>\<close>

text \<open>
  \<open>strings.Split\<close> cuts at every instance of a non-empty separator; the splitting of a
  string at an empty separator, into its characters, is not used by the scanner.
  \<open>TrimRight\<close> and \<open>Trim\<close> remove the characters of the cut set from the end, and from
  both ends.
\<close>

definition strings_Contains :: "string \<Rightarrow> string \<Rightarrow> bool" where
  "strings_Contains s substr \<longleftrightarrow> bytes_Index s substr \<noteq> None"

function strings_Split :: "string \<Rightarrow> string \<Rightarrow> string list" where
  "strings_Split s sep =
     (if sep = [] then map (\<lambda>c. [c]) s
      else
        (case bytes_Index s sep of
           None \<Rightarrow> [s]
         | Some i \<Rightarrow> take i s # strings_Split (drop (i + length sep) s) sep))"
  by pat_completeness auto
termination
proof (relation "measure (\<lambda>(s, sep). length s)")
  show "wf (measure (\<lambda>(s, sep). length s))" by simp
next
  fix s sep :: string and i :: nat
  assume "sep \<noteq> []" "bytes_Index s sep = Some i"
  with bytes_Index_Some_length [of s sep i]
  show "((drop (i + length sep) s, sep), (s, sep)) \<in> measure (\<lambda>(s, sep). length s)"
    by (cases sep) auto
qed

definition strings_TrimRight :: "string \<Rightarrow> string \<Rightarrow> string" where
  "strings_TrimRight s cutset = rev (dropWhile (\<lambda>c. c \<in> set cutset) (rev s))"

definition strings_Trim :: "string \<Rightarrow> string \<Rightarrow> string" where
  "strings_Trim s cutset = dropWhile (\<lambda>c. c \<in> set cutset) (strings_TrimRight s cutset)"

section \<open>The header-only split function\<close>

definition scanHeader :: "bytes \<Rightarrow> bool \<Rightarrow> split_result" where
  "scanHeader data atEOF =
     (if length data = 0 \<and> atEOF then (0, None, None)
      else
        (case bytes_Index data [LF, LF, LF] of
           None \<Rightarrow>
             if \<not> atEOF then (0, None, None)
             else (int (length data), Some data, None)
         | Some e \<Rightarrow>
             if atEOF then (int (length data), Some data, None)
             else (int e + 3, Some (take (e + 3) data), None)))"

section \<open>The separator candidate finder\<close>

text \<open>
  The test of \<open>findFroms\<close> on the four bytes before the line break at \<open>nextLine\<close>:
  three decimal digits, preceded by \<open>1\<close> or \<open>2\<close>.
\<close>

definition yearSuffix :: "bytes \<Rightarrow> nat \<Rightarrow> bool" where
  "yearSuffix data nextLine \<longleftrightarrow>
     data ! (nextLine - 1) \<le> CHR ''9'' \<and> data ! (nextLine - 1) \<ge> CHR ''0'' \<and>
     data ! (nextLine - 2) \<le> CHR ''9'' \<and> data ! (nextLine - 2) \<ge> CHR ''0'' \<and>
     data ! (nextLine - 3) \<le> CHR ''9'' \<and> data ! (nextLine - 3) \<ge> CHR ''0'' \<and>
     (data ! (nextLine - 4) = CHR ''1'' \<or> data ! (nextLine - 4) = CHR ''2'')"

text \<open>
  The position at which the next line starting with \<open>From \<close> is looked for, from
  \<open>curPos\<close> on: the offset of \<open>\nFrom \<close> in \<open>data[curPos:]\<close>, or 0 when \<open>data[curPos:]\<close>
  itself starts with \<open>From \<close>.
\<close>

definition fromAt :: "bytes \<Rightarrow> nat \<Rightarrow> nat option" where
  "fromAt data curPos =
     (let fromPos = bytes_Index (drop curPos data) (LF # ''From '')
      in if bytes_HasPrefix (drop curPos data) ''From '' then Some 0 else fromPos)"

lemma length_takeWhile_neq_less:
  "c \<in> set b \<Longrightarrow> length (takeWhile (\<lambda>x. x \<noteq> c) b) < length b"
  by (induction b) auto

lemma bytes_IndexByte_less:
  "bytes_IndexByte b c = Some n \<Longrightarrow> n < length b"
  by (auto simp: bytes_IndexByte_def length_takeWhile_neq_less split: if_splits)

function findFroms_from :: "bytes \<Rightarrow> nat \<Rightarrow> (nat \<times> nat) option" where
  "findFroms_from data curPos =
     (case fromAt data curPos of
        None \<Rightarrow> None
      | Some p \<Rightarrow>
          (let fromPos = p + curPos in
           case bytes_IndexByte (drop (fromPos + 1) data) LF of
             None \<Rightarrow> None
           | Some q \<Rightarrow>
               (let nextLine = q + (fromPos + 1) in
                if yearSuffix data nextLine then Some (fromPos, nextLine + 1)
                else findFroms_from data nextLine)))"
  by pat_completeness auto
termination
proof (relation "measure (\<lambda>(data, curPos). length data - curPos)")
  show "wf (measure (\<lambda>(data, curPos). length data - curPos))" by simp
next
  fix data :: bytes and curPos p fromPos q nextLine :: nat
  assume fp: "fromPos = p + curPos"
    and q: "bytes_IndexByte (drop (fromPos + 1) data) LF = Some q"
    and nl: "nextLine = q + (fromPos + 1)"
  from bytes_IndexByte_less [OF q] have "q + (fromPos + 1) < length data" by simp
  with fp nl show "((data, nextLine), (data, curPos)) \<in> measure (\<lambda>(data, curPos). length data - curPos)"
    by simp
qed

definition findFroms :: "bytes \<Rightarrow> (nat \<times> nat) option" where
  "findFroms data = findFroms_from data 0"

declare findFroms_from.simps [simp del]

lemma findFroms_from_unfold:
  "findFroms_from data curPos =
     (case fromAt data curPos of
        None \<Rightarrow> None
      | Some p \<Rightarrow>
          (case bytes_IndexByte (drop (p + curPos + 1) data) LF of
             None \<Rightarrow> None
           | Some q \<Rightarrow>
               if yearSuffix data (q + (p + curPos + 1))
               then Some (p + curPos, q + (p + curPos + 1) + 1)
               else findFroms_from data (q + (p + curPos + 1))))"
  by (subst findFroms_from.simps) (simp add: Let_def split: option.split)

lemma findFroms_from_bounds:
  "findFroms_from data curPos = Some (s, e) \<Longrightarrow> curPos \<le> s \<and> s + 1 < e \<and> e \<le> length data"
proof (induction data curPos rule: findFroms_from.induct)
  case (1 data curPos)
  from "1.prems" obtain p q where p: "fromAt data curPos = Some p"
    and q: "bytes_IndexByte (drop (p + curPos + 1) data) LF = Some q"
    by (subst (asm) findFroms_from_unfold) (auto split: option.splits)
  from bytes_IndexByte_less [OF q] have lt: "q + (p + curPos + 1) < length data" by simp
  show ?case
  proof (cases "yearSuffix data (q + (p + curPos + 1))")
    case True
    with "1.prems" p q have "s = p + curPos \<and> e = q + (p + curPos + 1) + 1"
      by (subst (asm) findFroms_from_unfold) simp
    with lt show ?thesis by simp
  next
    case False
    with "1.prems" p q have "findFroms_from data (q + (p + curPos + 1)) = Some (s, e)"
      by (subst (asm) findFroms_from_unfold) simp
    from "1.IH" [OF p refl _ refl False this] q show ?thesis by simp
  qed
qed

lemma findFroms_bounds:
  "findFroms data = Some (s, e) \<Longrightarrow> s + 1 < e \<and> e \<le> length data"
  using findFroms_from_bounds [of data 0 s e] by (simp add: findFroms_def)

section \<open>The message-mode split function\<close>

text \<open>
  The header decoder \<open>textproto.Reader.ReadMIMEHeader\<close> is not part of the package: it
  is a parameter \<open>rd\<close> of the model, from the bytes handed to it to an error or the
  decoded \<open>MIMEHeader\<close>, a map from field names to their values. \<open>len_header\<close> is Go's
  \<open>len(header)\<close>, the number of distinct keys.
\<close>

type_synonym MIMEHeader = "(string \<times> string list) list"

type_synonym decoder = "bytes \<Rightarrow> error + MIMEHeader"

definition len_header :: "MIMEHeader \<Rightarrow> nat" where
  "len_header header = length (remdups (map fst header))"

text \<open>
  The \<open>for\<close> loop of \<open>scanMessage\<close>. \<open>end\<close> is the end of the first separator line,
  \<open>curEnd\<close> the end of the last candidate examined; \<open>continue\<close> is the recursive call.
\<close>

function scanMessage_loop :: "decoder \<Rightarrow> bytes \<Rightarrow> bool \<Rightarrow> nat \<Rightarrow> nat \<Rightarrow> split_result" where
  "scanMessage_loop rd data atEOF end curEnd =
     (case findFroms (drop curEnd data) of
        None \<Rightarrow>
          if atEOF then (int (length data), Some (drop end data), None)
          else (0, None, None)
      | Some (priorStart, priorEnd) \<Rightarrow>
          (let curStart = priorStart + curEnd; curEnd' = priorEnd + curEnd in
           if bytes_Index (drop curEnd' data) [LF, LF] = None then (0, None, None)
           else
             (case rd (drop curEnd' data) of
                Inl err \<Rightarrow> scanMessage_loop rd data atEOF end curEnd'
              | Inr header \<Rightarrow>
                  if len_header header < 2 then scanMessage_loop rd data atEOF end curEnd'
                  else (int curStart - 1, Some (take (curStart - end) (drop end data)), None))))"
  by pat_completeness auto
termination
proof (relation "measure (\<lambda>(rd, data, atEOF, end, curEnd). length data - curEnd)")
  show "wf (measure (\<lambda>(rd, data, atEOF, end, curEnd). length data - curEnd))" by simp
next
  fix rd :: decoder and data :: bytes and atEOF :: bool and "end" curEnd curEnd' priorEnd :: nat
    and x2 :: "nat \<times> nat" and priorStart
  assume "findFroms (drop curEnd data) = Some x2" "(priorStart, priorEnd) = x2"
    and c: "curEnd' = priorEnd + curEnd"
  then have "findFroms (drop curEnd data) = Some (priorStart, priorEnd)" by simp
  from findFroms_bounds [OF this] have "0 < priorEnd" "priorEnd + curEnd \<le> length data" by auto
  with c show "((rd, data, atEOF, end, curEnd'), (rd, data, atEOF, end, curEnd))
      \<in> measure (\<lambda>(rd, data, atEOF, end, curEnd). length data - curEnd)" by simp
  then show "((rd, data, atEOF, end, curEnd'), (rd, data, atEOF, end, curEnd))
      \<in> measure (\<lambda>(rd, data, atEOF, end, curEnd). length data - curEnd)" .
qed

declare scanMessage_loop.simps [simp del]

definition scanMessage :: "decoder \<Rightarrow> SplitFunc" where
  "scanMessage rd data atEOF =
     (if length data = 0 \<and> atEOF then (0, None, None)
      else
        (case findFroms data of
           None \<Rightarrow> if \<not> atEOF then (0, None, None) else (int (length data), None, None)
         | Some (start, end) \<Rightarrow> scanMessage_loop rd data atEOF end end))"

section \<open>The message-mode split function with a regular expression\<close>

text \<open>
  The first scanner of \<open>scanner.go\<close> finds the next separator with a regular
  expression and knows about multipart boundaries. \<open>header_Get\<close> is \<open>MIMEHeader.Get\<close>,
  \<open>boundaryEndOf\<close> the computation of \<open>boundaryEnd\<close> from the \<open>Content-Type\<close> value.
\<close>

definition header_Get :: "MIMEHeader \<Rightarrow> string \<Rightarrow> string" where
  "header_Get header key = (case map_of header key of Some (v # vs) \<Rightarrow> v | _ \<Rightarrow> [])"

definition boundaryEndOf :: "string \<Rightarrow> string" where
  "boundaryEndOf cth =
     (if strings_Contains cth ''multipart'' then
        (case find (\<lambda>v. prefix ''boundary='' v) (strings_Split cth ''; '') of
           None \<Rightarrow> []
         | Some v \<Rightarrow>
             (let c = (case bytes_Index v ''='' of None \<Rightarrow> 0 | Some i \<Rightarrow> i + 1)
              in ''--'' @ strings_Trim (strings_TrimRight (drop c v) '';'') [CHR 0x22, CHR 0x27] @ ''--''))
      else [])"

text \<open>
  The regular expression \<open>fromLine\<close> is \<open>\nFrom .*(19|20)[0-9]{2}\<close>. It matches at the
  start of \<open>s\<close> when \<open>s\<close> starts with a line break and \<open>From \<close> and the rest of that
  line, up to the next line break, holds \<open>19\<close> or \<open>20\<close> followed by two digits
  (\<open>.\<close> does not match a line break). \<open>FindIndex\<close> reports the leftmost match;
  \<open>fromLine_loc\<close> is its start, \<open>r[0]\<close>, or \<open>-1\<close>.
\<close>

definition yearAt :: "bytes \<Rightarrow> bool" where
  "yearAt l =
     (case l of
        a # b # c # d # rest \<Rightarrow>
          ([a, b] = ''19'' \<or> [a, b] = ''20'') \<and> isDigit c \<and> isDigit d
      | _ \<Rightarrow> False)"

fun hasYear :: "bytes \<Rightarrow> bool" where
  "hasYear [] = False"
| "hasYear (x # xs) = (yearAt (x # xs) \<or> hasYear xs)"

definition fromLineMatch :: "bytes \<Rightarrow> bool" where
  "fromLineMatch s \<longleftrightarrow>
     prefix (LF # ''From '') s \<and> hasYear (takeWhile (\<lambda>c. c \<noteq> LF) (drop 6 s))"

fun fromLine_FindIndex :: "bytes \<Rightarrow> nat option" where
  "fromLine_FindIndex [] = None"
| "fromLine_FindIndex (x # xs) =
     (if fromLineMatch (x # xs) then Some 0 else map_option Suc (fromLine_FindIndex xs))"

definition fromLine_loc :: "bytes \<Rightarrow> int" where
  "fromLine_loc data = (case fromLine_FindIndex data of None \<Rightarrow> - 1 | Some i \<Rightarrow> int i)"

text \<open>
  Where the code computes with an offset that may be \<open>-1\<close>, offsets are Go's \<open>int\<close>.
  An index expression \<open>data[i]\<close> panics outside \<open>0 \<le> i < len(data)\<close>. A slice
  expression \<open>data[lo:hi]\<close> is taken to fail outside \<open>0 \<le> lo \<le> hi \<le> len(data)\<close>: Go
  checks \<open>hi\<close> against the capacity, and a token that reaches past the window would hold
  bytes that are not part of it. Both are the outcome \<open>Panic\<close>.
\<close>

definition bytes_Index_int :: "bytes \<Rightarrow> bytes \<Rightarrow> int" where
  "bytes_Index_int s sep = (case bytes_Index s sep of None \<Rightarrow> - 1 | Some i \<Rightarrow> int i)"

datatype outcome = Return split_result | Panic

definition index_at :: "bytes \<Rightarrow> int \<Rightarrow> char option" where
  "index_at data i = (if 0 \<le> i \<and> i < int (length data) then Some (data ! nat i) else None)"

definition slice :: "bytes \<Rightarrow> int \<Rightarrow> int \<Rightarrow> bytes option" where
  "slice data lo hi =
     (if 0 \<le> lo \<and> lo \<le> hi \<and> hi \<le> int (length data)
      then Some (take (nat hi - nat lo) (drop (nat lo) data)) else None)"

definition emit :: "bytes \<Rightarrow> int \<Rightarrow> int \<Rightarrow> int \<Rightarrow> outcome" where
  "emit data advance lo hi =
     (case slice data lo hi of None \<Rightarrow> Panic | Some token \<Rightarrow> Return (advance, Some token, None))"

text \<open>The end of \<open>scanMessage\<close>: the two \<open>return\<close>s after the boundary handling.\<close>

definition scanMessage_regexp_end :: "bytes \<Rightarrow> int \<Rightarrow> int \<Rightarrow> int \<Rightarrow> outcome" where
  "scanMessage_regexp_end data advanceExtra n e =
     (case index_at data (e - 1) of
        None \<Rightarrow> Panic
      | Some ch \<Rightarrow>
          if ch \<noteq> LF then emit data (e + 1 + advanceExtra) (n + 1) (e + 1)
          else emit data (e + 1 + advanceExtra) (n + 1) e)"

text \<open>The boundary handling, for the terminator \<open>boundaryEnd\<close> computed from the header.\<close>

definition scanMessage_regexp_boundary :: "bytes \<Rightarrow> int \<Rightarrow> int \<Rightarrow> int \<Rightarrow> string \<Rightarrow> outcome" where
  "scanMessage_regexp_boundary data advanceExtra n e boundaryEnd =
     (if boundaryEnd \<noteq> [] then
        (let b = bytes_Index_int data boundaryEnd in
         if b = - 1 then
           (let c = bytes_Index_int data (LF # ''Content-Type: multipart'');
                d = bytes_Index_int (drop (nat (c + 1)) data) (LF # ''Content-Type: multipart'')
            in if d + c + 1 > e then emit data (e + 1 + advanceExtra) (n + 1) e
               else Return (0, None, None))
         else
           (let e' = (if e < b then fromLine_loc data + b else e)
            in scanMessage_regexp_end data advanceExtra n e'))
      else scanMessage_regexp_end data advanceExtra n e)"

text \<open>
  \<open>scanMessage\<close> from the test \<open>e == -1 && !atEOF\<close> on, for the values that \<open>data\<close>,
  \<open>advanceExtra\<close> and \<open>e\<close> have there.
\<close>

definition scanMessage_regexp_rest :: "decoder \<Rightarrow> bytes \<Rightarrow> bool \<Rightarrow> int \<Rightarrow> int \<Rightarrow> outcome" where
  "scanMessage_regexp_rest rd data atEOF advanceExtra e =
     (if e = - 1 \<and> \<not> atEOF then Return (advanceExtra, None, None)
      else if \<not> bytes_HasPrefix data ''From ''
        then Return (advanceExtra, None, Some ErrInvalidMboxFormat)
      else
        (case bytes_IndexByte data LF of
           None \<Rightarrow> Return (advanceExtra, None, Some ErrInvalidMboxFormat)
         | Some n \<Rightarrow>
             if atEOF then
               (if data ! (length data - 1) \<noteq> LF
                  then Return (advanceExtra, None, Some ErrInvalidMboxFormat)
                else Return (int (length data) + advanceExtra, Some (drop (n + 1) data), None))
             else
               (case rd (drop (n + 1) data) of
                  Inl err \<Rightarrow> Return (0, None, Some err)
                | Inr header \<Rightarrow>
                    scanMessage_regexp_boundary data advanceExtra (int n) e
                      (boundaryEndOf (header_Get header ''Content-Type'')))))"

text \<open>
  The start of \<open>scanMessage\<close>: when the expression matches at offset 0 the leading line
  break is skipped (\<open>data = data[1:]\<close>, \<open>advanceExtra = 1\<close>) and the search is repeated.
\<close>

definition scanMessage_regexp :: "decoder \<Rightarrow> bytes \<Rightarrow> bool \<Rightarrow> outcome" where
  "scanMessage_regexp rd data atEOF =
     (if length data = 0 \<and> atEOF then Return (0, None, None)
      else
        (let e = fromLine_loc data in
         if e = 0
         then scanMessage_regexp_rest rd (drop 1 data) atEOF 1 (fromLine_loc (drop 1 data))
         else scanMessage_regexp_rest rd data atEOF 0 e))"

section \<open>The buffered scanner of package \<open>bufio\<close>\<close>

text \<open>
  \<open>bufio.Scanner\<close> belongs to Go's standard library. Its \<open>Scan\<close> method is modelled
  as the library's source has it, for a reader that is a list of chunks: each \<open>Read\<close>
  returns the next chunk, and \<open>io.EOF\<close> when none is left. \<open>bs_buf\<close> is the window
  \<open>s.buf[s.start:s.end]\<close> of unconsumed bytes. The buffer's capacity is not modelled
  (no \<open>ErrTooLong\<close>), nor is the guard against a split function that returns tokens
  at end of input without advancing.
\<close>

record bufio_Scanner =
  bs_r :: "bytes list"
  bs_split :: SplitFunc
  bs_buf :: bytes
  bs_token :: "bytes option"
  bs_err :: "error option"

definition setErr :: "error \<Rightarrow> bufio_Scanner \<Rightarrow> bufio_Scanner" where
  "setErr e st =
     (if bs_err st = None \<or> bs_err st = Some EOF then st\<lparr>bs_err := Some e\<rparr> else st)"

text \<open>
  One round of the loop of \<open>Scan\<close>, first half: the split function is tried on what the
  buffer holds. \<open>Inl\<close> is a \<open>return\<close> of \<open>Scan\<close>, \<open>Inr\<close> goes on to read.
\<close>

definition splitPhase :: "bufio_Scanner \<Rightarrow> (bool \<times> bufio_Scanner) + bufio_Scanner" where
  "splitPhase st =
     (if bs_buf st \<noteq> [] \<or> bs_err st \<noteq> None then
        (case bs_split st (bs_buf st) (bs_err st \<noteq> None) of
           (advance, tok, err) \<Rightarrow>
             (case err of
                Some e \<Rightarrow> Inl (False, setErr e st)
              | None \<Rightarrow>
                  if advance < 0 then Inl (False, setErr ErrNegativeAdvance st)
                  else if advance > int (length (bs_buf st))
                    then Inl (False, setErr ErrAdvanceTooFar st)
                  else
                    (let st' = st\<lparr>bs_buf := drop (nat advance) (bs_buf st), bs_token := tok\<rparr>
                     in if tok \<noteq> None then Inl (True, st') else Inr st')))
      else Inr st)"

text \<open>Second half: stop at end of input, or read the next chunk.\<close>

definition readPhase :: "bufio_Scanner \<Rightarrow> (bool \<times> bufio_Scanner) + bufio_Scanner" where
  "readPhase st =
     (if bs_err st \<noteq> None then Inl (False, st\<lparr>bs_buf := []\<rparr>)
      else
        (case bs_r st of
           [] \<Rightarrow> Inr (setErr EOF st)
         | c # cs \<Rightarrow> Inr (st\<lparr>bs_r := cs, bs_buf := bs_buf st @ c\<rparr>)))"

lemma splitPhase_Inr:
  "splitPhase st = Inr st' \<Longrightarrow> bs_r st' = bs_r st \<and> bs_err st' = bs_err st"
  by (auto simp: splitPhase_def Let_def split: if_splits prod.splits option.splits)

lemma readPhase_Inr:
  "readPhase st = Inr st' \<Longrightarrow>
     2 * length (bs_r st') + (if bs_err st' = None then 1 else 0)
       < 2 * length (bs_r st) + (if bs_err st = None then 1 else (0::nat))"
  by (auto simp: readPhase_def setErr_def split: if_splits list.splits)

function Scan :: "bufio_Scanner \<Rightarrow> bool \<times> bufio_Scanner" where
  "Scan st =
     (case splitPhase st of
        Inl r \<Rightarrow> r
      | Inr st' \<Rightarrow>
          (case readPhase st' of
             Inl r \<Rightarrow> r
           | Inr st'' \<Rightarrow> Scan st''))"
  by pat_completeness auto
termination
proof (relation "measure (\<lambda>st. 2 * length (bs_r st) + (if bs_err st = None then 1 else 0))")
  show "wf (measure (\<lambda>st. 2 * length (bs_r st) + (if bs_err st = None then 1 else 0)))"
    by simp
next
  fix st st' st'' :: bufio_Scanner
  assume "splitPhase st = Inr st'" "readPhase st' = Inr st''"
  from splitPhase_Inr [OF this(1)] readPhase_Inr [OF this(2)]
  show "(st'', st) \<in> measure (\<lambda>st. 2 * length (bs_r st) + (if bs_err st = None then 1 else 0))"
    by simp
qed

declare Scan.simps [simp del]

text \<open>\<open>Bytes\<close> and \<open>Err\<close> of \<open>bufio.Scanner\<close>; \<open>Err\<close> hides \<open>io.EOF\<close>.\<close>

definition Bytes :: "bufio_Scanner \<Rightarrow> bytes" where
  "Bytes st = (case bs_token st of None \<Rightarrow> [] | Some t \<Rightarrow> t)"

definition bufio_Err :: "bufio_Scanner \<Rightarrow> error option" where
  "bufio_Err st = (if bs_err st = Some EOF then None else bs_err st)"

definition bufio_NewScanner :: "bytes list \<Rightarrow> SplitFunc \<Rightarrow> bufio_Scanner" where
  "bufio_NewScanner r split =
     \<lparr>bs_r = r, bs_split = split, bs_buf = [], bs_token = None, bs_err = None\<rparr>"

section \<open>The Scanner of the package\<close>

text \<open>
  \<open>mail.ReadMessage\<close> is external as well: the parameter \<open>readMessage\<close>, from the token
  to an error or a message of some type \<open>'m\<close>.
\<close>

record 'm Scanner =
  sc_s :: bufio_Scanner
  sc_m :: "'m option"
  sc_curByte :: int
  sc_err :: "error option"

definition NewScanner :: "decoder \<Rightarrow> bytes list \<Rightarrow> bool \<Rightarrow> 'm Scanner" where
  "NewScanner rd r headers =
     \<lparr>sc_s = bufio_NewScanner r (if headers then scanHeader else scanMessage rd),
      sc_m = None, sc_curByte = 0, sc_err = None\<rparr>"

definition Location :: "'m Scanner \<Rightarrow> int" where
  "Location sc = sc_curByte sc"

definition Next :: "(bytes \<Rightarrow> error + 'm) \<Rightarrow> 'm Scanner \<Rightarrow> bool \<times> 'm Scanner" where
  "Next readMessage sc0 =
     (let sc = sc0\<lparr>sc_m := None\<rparr> in
      if sc_err sc \<noteq> None then (False, sc)
      else
        (case Scan (sc_s sc) of
           (False, s') \<Rightarrow> (False, sc\<lparr>sc_s := s', sc_err := bufio_Err s'\<rparr>)
         | (True, s') \<Rightarrow>
             (let sc' = sc\<lparr>sc_s := s', sc_curByte := sc_curByte sc + int (length (Bytes s'))\<rparr>
              in case readMessage (Bytes s') of
                   Inl e \<Rightarrow> (False, sc'\<lparr>sc_m := None, sc_err := Some e\<rparr>)
                 | Inr msg \<Rightarrow> (True, sc'\<lparr>sc_m := Some msg, sc_err := None\<rparr>))))"

definition Err :: "'m Scanner \<Rightarrow> error option" where
  "Err sc = sc_err sc"

definition Message :: "'m Scanner \<Rightarrow> 'm option" where
  "Message sc = (if sc_err sc \<noteq> None then None else sc_m sc)"

section \<open>The candidate finder that collects all candidates\<close>

text \<open>
  The second scanner of \<open>scanner.go\<close> has a \<open>findFroms\<close> that returns every candidate of
  the buffer as a pair \<open>(fromPos, nextLine)\<close>, \<open>nextLine\<close> being the offset of the line break
  that ends the line.
\<close>

function findFroms_list_loop :: "bytes \<Rightarrow> nat option \<Rightarrow> (nat \<times> nat) list \<Rightarrow> (nat \<times> nat) list" where
  "findFroms_list_loop data fromPos found =
     (case fromPos of
        None \<Rightarrow> found
      | Some fp \<Rightarrow>
          (case bytes_IndexByte (drop (fp + 1) data) LF of
             None \<Rightarrow> found
           | Some q \<Rightarrow>
               (let nextLine = q + (fp + 1);
                    found' = (if yearSuffix data nextLine then found @ [(fp, nextLine)] else found);
                    fromPos' = map_option (\<lambda>p. p + (nextLine + 1))
                                 (bytes_Index (drop nextLine data) (LF # ''From ''))
                in findFroms_list_loop data fromPos' found')))"
  by pat_completeness auto
termination
proof (relation "measure (\<lambda>(data, fromPos, found).
    case fromPos of None \<Rightarrow> 0 | Some fp \<Rightarrow> Suc (length data) - fp)")
  show "wf (measure (\<lambda>(data, fromPos, found).
    case fromPos of None \<Rightarrow> 0 | Some fp \<Rightarrow> Suc (length data) - fp))" by simp
next
  fix data :: bytes and fromPos fromPos' :: "nat option" and found found' :: "(nat \<times> nat) list"
    and fp q nextLine :: nat
  assume fp: "fromPos = Some fp"
    and q: "bytes_IndexByte (drop (fp + 1) data) LF = Some q"
    and nl: "nextLine = q + (fp + 1)"
    and f': "fromPos' = map_option (\<lambda>p. p + (nextLine + 1))
                                 (bytes_Index (drop nextLine data) (LF # ''From ''))"
  from bytes_IndexByte_less [OF q] have "q + (fp + 1) < length data" by simp
  with fp nl f' show "((data, fromPos', found'), (data, fromPos, found)) \<in> measure (\<lambda>(data, fromPos, found).
    case fromPos of None \<Rightarrow> 0 | Some fp \<Rightarrow> Suc (length data) - fp)"
    by (auto split: option.splits)
qed

definition findFroms_list :: "bytes \<Rightarrow> (nat \<times> nat) list" where
  "findFroms_list data = findFroms_list_loop data (fromAt data 0) []"

declare findFroms_list_loop.simps [simp del]

section \<open>What the specification calls a separator line\<close>

text \<open>
  Written from the specification's words, to state what the candidate finder reports:
  a decimal digit; the year heuristic on a line (its last three characters are decimal
  digits and the fourth from last is \<open>1\<close> or \<open>2\<close>); and a separator line of \<open>data\<close>
  that starts at \<open>ls\<close>, at offset 0 or right after a line break, and ends with the line
  break at \<open>le\<close>.
\<close>

definition yearHeuristic :: "bytes \<Rightarrow> bool" where
  "yearHeuristic line \<longleftrightarrow>
     4 \<le> length line \<and>
     isDigit (line ! (length line - 1)) \<and> isDigit (line ! (length line - 2)) \<and>
     isDigit (line ! (length line - 3)) \<and>
     (line ! (length line - 4) = CHR ''1'' \<or> line ! (length line - 4) = CHR ''2'')"

definition separatorLineAt :: "bytes \<Rightarrow> nat \<Rightarrow> nat \<Rightarrow> bool" where
  "separatorLineAt data ls le \<longleftrightarrow>
     (ls = 0 \<or> data ! (ls - 1) = LF) \<and> ls \<le> le \<and> le < length data \<and> data ! le = LF \<and>
     LF \<notin> set (take (le - ls) (drop ls data)) \<and>
     prefix ''From '' (take (le - ls) (drop ls data)) \<and>
     yearHeuristic (take (le - ls) (drop ls data))"

text \<open>
  The offset that \<open>findFroms\<close> reports for a candidate is that of the line break before
  the line, or of the line itself when it starts the buffer; \<open>lineStart\<close> is the offset of
  the line.
\<close>

definition lineStart :: "bytes \<Rightarrow> nat \<Rightarrow> nat" where
  "lineStart data fromPos = (if data ! fromPos = LF then fromPos + 1 else fromPos)"

text \<open>
  \<open>fromPos\<close> points at a line that starts with \<open>From \<close>: at its first byte, or at the
  line break before it.
\<close>

definition fromLineAt :: "bytes \<Rightarrow> nat \<Rightarrow> bool" where
  "fromLineAt data fromPos \<longleftrightarrow>
     ((fromPos = 0 \<or> data ! (fromPos - 1) = LF) \<and> prefix ''From '' (drop fromPos data)) \<or>
     prefix (LF # ''From '') (drop fromPos data)"




text \<open>
  \<open>Next_times n\<close> calls \<open>Next\<close> \<open>n\<close> times in a row and collects what the calls
  returned.
\<close>

fun Next_times :: "(bytes \<Rightarrow> error + 'm) \<Rightarrow> nat \<Rightarrow> 'm Scanner \<Rightarrow> bool list \<times> 'm Scanner" where
  "Next_times readMessage 0 sc = ([], sc)"
| "Next_times readMessage (Suc n) sc =
     (case Next readMessage sc of
        (ok, sc') \<Rightarrow>
          (case Next_times readMessage n sc' of (oks, sc'') \<Rightarrow> (ok # oks, sc'')))"

text \<open>
  The bytes of the stream not yet consumed: those in the buffer window and those the
  reader still holds. The bytes consumed so far are the stream's length minus this.
\<close>

definition unconsumed :: "bufio_Scanner \<Rightarrow> nat" where
  "unconsumed st = length (bs_buf st) + length (concat (bs_r st))"


section \<open>Example collaborators and inputs\<close>

text \<open>
  Instances of the external parameters, used where a statement is evaluated at a
  concrete input: a header decoder that accepts every block with two fields, one that
  rejects every block, and a message reader that accepts every token.
\<close>

definition acceptAll :: decoder where
  "acceptAll b = Inr [(''From'', [''a'']), (''Subject'', [''b''])]"

definition rejectAll :: decoder where
  "rejectAll b = Inl (ErrOther ''malformed MIME header line'')"

definition readAny :: "bytes \<Rightarrow> error + bytes" where
  "readAny b = Inr b"

text \<open>The example of the specification: one message of 26 bytes, 12 of them the separator line.\<close>

definition mboxOne :: bytes where
  "mboxOne = ''From a 2015\<newline>Subj: x\<newline>\<newline>Body\<newline>''"

text \<open>
  A small decoder for the examples: it reads the lines up to the first empty line; a
  line without a colon is an error, and so is the end of the bytes before an empty line;
  the field name is what stands before the colon. It is an instance of the parameter,
  not a model of \<open>net/textproto\<close>.
\<close>

fun headerLines :: "bytes \<Rightarrow> bytes \<Rightarrow> error + bytes list" where
  "headerLines cur [] = Inl EOF"
| "headerLines cur (c # cs) =
     (if c \<noteq> LF then headerLines (cur @ [c]) cs
      else if cur = [] then Inr []
      else if CHR '':'' \<notin> set cur then Inl (ErrOther ''malformed MIME header line'')
      else (case headerLines [] cs of Inl e \<Rightarrow> Inl e | Inr ls \<Rightarrow> Inr (cur # ls)))"

definition simpleDecoder :: decoder where
  "simpleDecoder b =
     (case headerLines [] b of
        Inl e \<Rightarrow> Inl e
      | Inr ls \<Rightarrow>
          Inr (map (\<lambda>l. (takeWhile (\<lambda>c. c \<noteq> CHR '':'') l,
                         [dropWhile (\<lambda>c. c = CHR '' '')
                            (drop (Suc (length (takeWhile (\<lambda>c. c \<noteq> CHR '':'') l))) l)])) ls))"

text \<open>
  Two messages; the body of the first quotes a line that passes the year heuristic and
  is not followed by a header.
\<close>

definition mboxQuoted :: bytes where
  "mboxQuoted = ''From a 2015\<newline>A: x\<newline>B: y\<newline>\<newline>Body\<newline>\<newline>From quoted 2014\<newline>not a header\<newline>\<newline>more\<newline>\<newline>From b 2015\<newline>A: x\<newline>B: y\<newline>\<newline>Body2\<newline>''"


text \<open>
  One message whose body quotes a line that passes the year heuristic; the bytes after
  the quoted line hold no blank line.
\<close>

definition mboxQuotedEOF :: bytes where
  "mboxQuotedEOF = ''From a 2015\<newline>A: x\<newline>B: y\<newline>\<newline>Body\<newline>From quoted 2014\<newline>bye\<newline>''"

text \<open>
  Two messages; the body of the first quotes a line that passes the year heuristic and
  is followed by a single header field and a blank line.
\<close>

definition mboxOneField :: bytes where
  "mboxOneField = ''From a 2015\<newline>A: x\<newline>B: y\<newline>\<newline>Body\<newline>\<newline>From quoted 2014\<newline>Subject: one\<newline>\<newline>more\<newline>\<newline>From b 2015\<newline>A: x\<newline>B: y\<newline>\<newline>Body2\<newline>''"

text \<open>Two messages with two header fields each, a blank line between them.\<close>

definition mboxTwo :: bytes where
  "mboxTwo = ''From a 2015\<newline>A: x\<newline>B: y\<newline>\<newline>Body\<newline>\<newline>From b 2015\<newline>A: x\<newline>B: y\<newline>\<newline>Body2\<newline>''"

section \<open>Facts about the candidate finder\<close>

lemma char_of_digits:
  "char_of (48::nat) = CHR ''0''" "char_of (49::nat) = CHR ''1''" "char_of (50::nat) = CHR ''2''"
  "char_of (51::nat) = CHR ''3''" "char_of (52::nat) = CHR ''4''" "char_of (53::nat) = CHR ''5''"
  "char_of (54::nat) = CHR ''6''" "char_of (55::nat) = CHR ''7''" "char_of (56::nat) = CHR ''8''"
  "char_of (57::nat) = CHR ''9''"
  by code_simp+

lemma digit_range: "(c \<le> CHR ''9'' \<and> c \<ge> CHR ''0'') = isDigit c"
proof
  assume a: "c \<le> CHR ''9'' \<and> c \<ge> CHR ''0''"
  define n :: nat where "n = of_char c"
  from a have "48 \<le> n" "n \<le> 57" by (simp_all add: less_eq_char_def n_def)
  then have "n = 48 \<or> n = 49 \<or> n = 50 \<or> n = 51 \<or> n = 52 \<or> n = 53 \<or> n = 54 \<or> n = 55
      \<or> n = 56 \<or> n = 57" by arith
  moreover have "c = char_of n" by (simp add: n_def)
  ultimately show "isDigit c" using char_of_digits by (auto simp: isDigit_def simp del: char_of_nat)
next
  assume "isDigit c"
  then show "c \<le> CHR ''9'' \<and> c \<ge> CHR ''0''"
    by (auto simp: isDigit_def less_eq_char_def)
qed

lemma bytes_IndexByte_Some:
  "bytes_IndexByte b c = Some q \<Longrightarrow> q < length b \<and> b ! q = c \<and> c \<notin> set (take q b)"
proof -
  assume a: "bytes_IndexByte b c = Some q"
  then have q: "q = length (takeWhile (\<lambda>x. x \<noteq> c) b)" and c: "c \<in> set b"
    by (auto simp: bytes_IndexByte_def split: if_splits)
  have lt: "q < length b" using bytes_IndexByte_less [OF a] .
  from nth_length_takeWhile [of "\<lambda>x. x \<noteq> c" b] lt q have "b ! q = c" by auto
  moreover have "take q b = takeWhile (\<lambda>x. x \<noteq> c) b"
    using takeWhile_eq_take [of "\<lambda>x. x \<noteq> c" b] q by simp
  then have "c \<notin> set (take q b)" using set_takeWhileD [of c "\<lambda>x. x \<noteq> c" b] by auto
  ultimately show ?thesis using lt by simp
qed

lemma prefix_drop_nth:
  "prefix p (drop n xs) \<Longrightarrow> i < length p \<Longrightarrow> xs ! (n + i) = p ! i \<and> n + i < length xs"
proof -
  assume "prefix p (drop n xs)" "i < length p"
  then obtain zs where z: "drop n xs = p @ zs" by (auto simp: prefix_def)
  then have "length p \<le> length xs - n" by (metis length_append length_drop le_add1)
  with \<open>i < length p\<close> have lt: "n + i < length xs" by simp
  from z \<open>i < length p\<close> have "drop n xs ! i = p ! i" by (simp add: nth_append)
  with lt show ?thesis by simp
qed

text \<open>The line found from a position that points at a From line.\<close>

lemma candidate_line:
  assumes fl: "fromLineAt data fromPos"
    and q: "bytes_IndexByte (drop (fromPos + 1) data) LF = Some q"
  shows "4 \<le> q + (fromPos + 1) - 1"
    and "q + (fromPos + 1) < length data"
    and "yearSuffix data (q + (fromPos + 1)) \<Longrightarrow>
           separatorLineAt data (lineStart data fromPos) (q + (fromPos + 1))"
proof -
  let ?nl = "q + (fromPos + 1)"
  let ?ls = "lineStart data fromPos"
  from bytes_IndexByte_Some [OF q]
  have ql: "?nl < length data" and qn: "data ! ?nl = LF"
    and qf: "LF \<notin> set (take q (drop (fromPos + 1) data))"
    by (auto simp: add.commute)
  have nolf: "data ! i \<noteq> LF" if "fromPos + 1 \<le> i" "i < ?nl" for i
  proof -
    from that have "i - (fromPos + 1) < q" by simp
    then have "take q (drop (fromPos + 1) data) ! (i - (fromPos + 1)) = data ! i"
      using that ql by simp
    moreover have "i - (fromPos + 1) < length (take q (drop (fromPos + 1) data))"
      using that ql by simp
    ultimately show ?thesis using qf by (metis nth_mem)
  qed
  from fl consider
      (a) "fromPos = 0 \<or> data ! (fromPos - 1) = LF" "prefix ''From '' (drop fromPos data)"
    | (b) "prefix (LF # ''From '') (drop fromPos data)"
    unfolding fromLineAt_def by blast
  then have ls: "(?ls = 0 \<or> data ! (?ls - 1) = LF) \<and> prefix ''From '' (drop ?ls data)
      \<and> (?ls = fromPos \<and> data ! fromPos \<noteq> LF \<or> ?ls = fromPos + 1)"
  proof cases
    case a
    from prefix_drop_nth [OF a(2), of 0] have "data ! fromPos = CHR ''F''" by simp
    then have "?ls = fromPos" "data ! fromPos \<noteq> LF" by (simp_all add: lineStart_def)
    with a show ?thesis by simp
  next
    case b
    from prefix_drop_nth [OF b, of 0] have f: "data ! fromPos = LF" by simp
    then have l: "?ls = fromPos + 1" by (simp add: lineStart_def)
    from b obtain zs where "drop fromPos data = LF # ''From '' @ zs" by (auto simp: prefix_def)
    then have "drop 1 (drop fromPos data) = ''From '' @ zs" by simp
    then have "prefix ''From '' (drop (fromPos + 1) data)" by (simp add: add.commute)
    with l f show ?thesis by simp
  qed
  then have pre: "prefix ''From '' (drop ?ls data)" by simp
  have from5: "data ! (?ls + i) \<noteq> LF" if "i < 5" for i
  proof -
    from that have "i = 0 \<or> i = 1 \<or> i = 2 \<or> i = 3 \<or> i = 4" by arith
    moreover from prefix_drop_nth [OF pre, of i] that have "data ! (?ls + i) = ''From '' ! i" by simp
    ultimately show ?thesis by auto
  qed
  have ge: "?ls + 5 \<le> ?nl"
  proof (rule ccontr)
    assume "\<not> ?ls + 5 \<le> ?nl"
    moreover from ls have "?ls \<le> ?nl" by auto
    ultimately have "?nl - ?ls < 5" "?ls + (?nl - ?ls) = ?nl" by auto
    with from5 [of "?nl - ?ls"] qn show False by simp
  qed
  then show "4 \<le> ?nl - 1" by simp
  show "?nl < length data" by (rule ql)
  assume ys: "yearSuffix data ?nl"
  let ?line = "take (?nl - ?ls) (drop ?ls data)"
  have len: "length ?line = ?nl - ?ls" using ql by simp
  have nth: "?line ! i = data ! (?ls + i)" if "i < ?nl - ?ls" for i
    using that ql by simp
  have "LF \<notin> set ?line"
  proof
    assume "LF \<in> set ?line"
    then obtain i where i: "i < ?nl - ?ls" "?line ! i = LF"
      using len by (metis in_set_conv_nth)
    with nth have d: "data ! (?ls + i) = LF" by simp
    show False
    proof (cases "?ls + i = fromPos")
      case True
      with ls d show False by auto
    next
      case False
      with ls have ge1: "fromPos + 1 \<le> ?ls + i" by auto
      have lt: "?ls + i < ?nl" using i(1) by arith
      from nolf [OF ge1 lt] d show False by simp
    qed
  qed
  moreover have "prefix ''From '' ?line"
  proof -
    from pre obtain zs where "drop ?ls data = ''From '' @ zs" by (auto simp: prefix_def)
    moreover have "5 \<le> ?nl - ?ls" using ge by simp
    ultimately show ?thesis by (auto simp: prefix_def take_Cons' ) 
  qed
  moreover have "yearHeuristic ?line"
  proof -
    have k: "?line ! (length ?line - k) = data ! (?nl - k)" if "1 \<le> k" "k \<le> 4" for k
    proof -
      from that ge have "?nl - ?ls - k < ?nl - ?ls" "?ls + (?nl - ?ls - k) = ?nl - k" by auto
      with nth [of "?nl - ?ls - k"] len show ?thesis by simp
    qed
    from ys k [of 1] k [of 2] k [of 3] k [of 4] ge len show ?thesis
      unfolding yearSuffix_def yearHeuristic_def digit_range [symmetric] by simp
  qed
  ultimately show "separatorLineAt data ?ls ?nl"
    using ls ql qn ge by (auto simp: separatorLineAt_def)
qed

lemma bytes_IndexByte_drop_Some:
  assumes "bytes_IndexByte (drop k data) c = Some q"
  shows "q + k < length data" and "data ! (q + k) = c"
    and "\<And>i. k \<le> i \<Longrightarrow> i < q + k \<Longrightarrow> data ! i \<noteq> c"
proof -
  from bytes_IndexByte_Some [OF assms]
  have a: "q < length (drop k data)" "drop k data ! q = c" "c \<notin> set (take q (drop k data))"
    by auto
  from a(1) show lt: "q + k < length data" by simp
  from a(2) lt show "data ! (q + k) = c" by (simp add: add.commute)
  fix i assume i: "k \<le> i" "i < q + k"
  then have "take q (drop k data) ! (i - k) = data ! i" using lt by simp
  moreover have "i - k < length (take q (drop k data))" using i lt by simp
  ultimately show "data ! i \<noteq> c" using a(3) by (metis nth_mem)
qed

lemma fromAt_fromLineAt:
  assumes "fromAt data curPos = Some p" and "curPos = 0 \<or> data ! curPos = LF"
  shows "fromLineAt data (p + curPos)"
proof (cases "bytes_HasPrefix (drop curPos data) ''From ''")
  case True
  then have pre: "prefix ''From '' (drop curPos data)" by (simp add: bytes_HasPrefix_def)
  from prefix_drop_nth [OF this, of 0] have "data ! curPos = CHR ''F''" by simp
  with assms(2) have "curPos = 0" by auto
  moreover from True assms(1) have "p = 0" by (simp add: fromAt_def)
  ultimately show ?thesis using pre by (simp add: fromLineAt_def)
next
  case False
  with assms(1) have "bytes_Index (drop curPos data) (LF # ''From '') = Some p"
    by (simp add: fromAt_def)
  from bytes_Index_Some_prefix [OF this] show ?thesis by (simp add: fromLineAt_def)
qed

lemma findFroms_from_candidate:
  "findFroms_from data curPos = Some (s, e) \<Longrightarrow> curPos = 0 \<or> data ! curPos = LF \<Longrightarrow>
     separatorLineAt data (lineStart data s) (e - 1)"
proof (induction data curPos rule: findFroms_from.induct)
  case (1 data curPos)
  from "1.prems"(1) obtain p q where p: "fromAt data curPos = Some p"
    and q: "bytes_IndexByte (drop (p + curPos + 1) data) LF = Some q"
    by (subst (asm) findFroms_from_unfold) (auto split: option.splits)
  from fromAt_fromLineAt [OF p "1.prems"(2)] have fl: "fromLineAt data (p + curPos)" .
  show ?case
  proof (cases "yearSuffix data (q + (p + curPos + 1))")
    case True
    with "1.prems" p q have "s = p + curPos \<and> e = q + (p + curPos + 1) + 1"
      by (subst (asm) findFroms_from_unfold) simp
    with candidate_line(3) [OF fl q True] show ?thesis by simp
  next
    case False
    with "1.prems" p q have r: "findFroms_from data (q + (p + curPos + 1)) = Some (s, e)"
      by (subst (asm) findFroms_from_unfold) simp
    from bytes_IndexByte_drop_Some(2) [OF q] have "data ! (q + (p + curPos + 1)) = LF" .
    with "1.IH" [OF p refl _ refl False r] q show ?thesis by simp
  qed
qed

lemma findFroms_list_loop_candidates:
  "(\<forall>fp. fromPos = Some fp \<longrightarrow> fromLineAt data fp) \<Longrightarrow>
   (\<forall>(s, nl) \<in> set found. separatorLineAt data (lineStart data s) nl) \<Longrightarrow>
   (s, nl) \<in> set (findFroms_list_loop data fromPos found) \<Longrightarrow>
   separatorLineAt data (lineStart data s) nl"
proof (induction data fromPos found rule: findFroms_list_loop.induct)
  case (1 data fromPos found)
  show ?case
  proof (cases fromPos)
    case None
    then have "findFroms_list_loop data fromPos found = found"
      by (subst findFroms_list_loop.simps) simp
    with "1.prems" show ?thesis by auto
  next
    case (Some fp)
    with "1.prems" have fl: "fromLineAt data fp" by simp
    show ?thesis
    proof (cases "bytes_IndexByte (drop (fp + 1) data) LF")
      case None
      with Some have "findFroms_list_loop data fromPos found = found"
        by (subst findFroms_list_loop.simps) simp
      with "1.prems" show ?thesis by auto
    next
      case q: (Some q)
      let ?nl = "q + (fp + 1)"
      let ?found' = "if yearSuffix data ?nl then found @ [(fp, ?nl)] else found"
      let ?fromPos' = "map_option (\<lambda>p. p + (?nl + 1))
                                 (bytes_Index (drop ?nl data) (LF # ''From ''))"
      have "findFroms_list_loop data fromPos found = findFroms_list_loop data ?fromPos' ?found'"
        by (subst findFroms_list_loop.simps) (simp only: Some q option.case Let_def)
      with "1.prems"(3) have mem: "(s, nl) \<in> set (findFroms_list_loop data ?fromPos' ?found')"
        by simp
      have a: "\<forall>fp. ?fromPos' = Some fp \<longrightarrow> fromLineAt data fp"
      proof (intro allI impI)
        fix fp' assume "?fromPos' = Some fp'"
        then obtain p where p: "bytes_Index (drop ?nl data) (LF # ''From '') = Some p"
          and fp': "fp' = p + (?nl + 1)" by auto
        from bytes_Index_Some_prefix [OF p] have pr: "prefix (LF # ''From '') (drop (p + ?nl) data)"
          by simp
        from prefix_drop_nth [OF pr, of 0] have "data ! (p + ?nl) = LF" by simp
        moreover from pr obtain zs where "drop (p + ?nl) data = LF # ''From '' @ zs"
          by (auto simp: prefix_def)
        then have "drop 1 (drop (p + ?nl) data) = ''From '' @ zs" by simp
        then have "prefix ''From '' (drop fp' data)" using fp' by (simp add: add.commute add.left_commute)
        ultimately show "fromLineAt data fp'" using fp' by (simp add: fromLineAt_def)
      qed
      have b: "\<forall>(s, nl) \<in> set ?found'. separatorLineAt data (lineStart data s) nl"
        using "1.prems"(2) candidate_line(3) [OF fl q] by auto
      from "1.IH" [OF Some q refl refl refl a b mem] show ?thesis .
    qed
  qed
qed











section \<open>Facts about the message-mode split function\<close>

lemma scanMessage_loop_unfold:
  "scanMessage_loop rd data atEOF end curEnd =
     (case findFroms (drop curEnd data) of
        None \<Rightarrow>
          if atEOF then (int (length data), Some (drop end data), None)
          else (0, None, None)
      | Some (priorStart, priorEnd) \<Rightarrow>
           if bytes_Index (drop (priorEnd + curEnd) data) [LF, LF] = None then (0, None, None)
           else
             (case rd (drop (priorEnd + curEnd) data) of
                Inl err \<Rightarrow> scanMessage_loop rd data atEOF end (priorEnd + curEnd)
              | Inr header \<Rightarrow>
                  if len_header header < 2 then scanMessage_loop rd data atEOF end (priorEnd + curEnd)
                  else (int (priorStart + curEnd) - 1,
                        Some (take (priorStart + curEnd - end) (drop end data)), None)))"
  by (subst scanMessage_loop.simps) (simp add: Let_def split: option.split prod.split sum.split)

lemma separatorLineAt_shift:
  assumes "separatorLineAt (drop k data) ls le" and "k = 0 \<or> data ! (k - 1) = LF"
  shows "separatorLineAt data (ls + k) (le + k)"
proof -
  from assms(1) have le: "le < length data - k" and lsle: "ls \<le> le"
    by (auto simp: separatorLineAt_def)
  have "ls + k = 0 \<or> data ! (ls + k - 1) = LF"
  proof (cases ls)
    case 0
    with assms(2) show ?thesis by auto
  next
    case (Suc j)
    with assms(1) have "drop k data ! j = LF" by (simp add: separatorLineAt_def)
    moreover have "k + j < length data" using le lsle Suc by simp
    ultimately show ?thesis using Suc by (simp add: add.commute)
  qed
  moreover have "data ! (le + k) = LF"
    using assms(1) le by (simp add: separatorLineAt_def add.commute)
  moreover have "take (le + k - (ls + k)) (drop (ls + k) data) = take (le - ls) (drop ls (drop k data))"
    by simp
  ultimately show ?thesis using assms(1) le lsle
    by (simp add: separatorLineAt_def)
qed

lemma lineStart_drop:
  "s + k < length data \<Longrightarrow> lineStart (drop k data) s + k = lineStart data (s + k)"
  by (simp add: lineStart_def add.commute)

lemma findFroms_candidate_line:
  "findFroms data = Some (s, e) \<Longrightarrow> separatorLineAt data (lineStart data s) (e - 1)"
  using findFroms_from_candidate [of data 0 s e] by (simp add: findFroms_def)

lemma findFroms_drop_candidate:
  assumes f: "findFroms (drop k data) = Some (s, e)" and k: "k = 0 \<or> data ! (k - 1) = LF"
  shows "separatorLineAt data (lineStart data (s + k)) (e + k - 1)"
    and "s + k + 1 < e + k" and "e + k \<le> length data" and "data ! (e + k - 1) = LF"
proof -
  from findFroms_bounds [OF f] have b: "s + 1 < e" "e + k \<le> length data" by auto
  then show "s + k + 1 < e + k" "e + k \<le> length data" by auto
  from separatorLineAt_shift [OF findFroms_candidate_line [OF f] k]
  have "separatorLineAt data (lineStart (drop k data) s + k) (e - 1 + k)" .
  moreover have "s + k < length data" using b by simp
  ultimately show c: "separatorLineAt data (lineStart data (s + k)) (e + k - 1)"
    using lineStart_drop [of s k data] b by simp
  then show "data ! (e + k - 1) = LF" by (simp add: separatorLineAt_def)
qed

text \<open>
  A token of the loop ends at the end of the buffer, at end of input, or right before a
  candidate line whose following bytes hold a blank line and decode to a header of at
  least two fields. The loop returns no error.
\<close>

lemma scanMessage_loop_token:
  "scanMessage_loop rd data atEOF end curEnd = (adv, Some tok, err) \<Longrightarrow>
   end \<le> curEnd \<and> curEnd \<le> length data \<Longrightarrow> curEnd = 0 \<or> data ! (curEnd - 1) = LF \<Longrightarrow>
     err = None \<and>
     (\<exists>c. end \<le> c \<and> c \<le> length data \<and> tok = take (c - end) (drop end data) \<and>
        (atEOF \<and> c = length data \<and> adv = int (length data) \<or>
         (\<exists>le header. separatorLineAt data (lineStart data c) le \<and>
            bytes_Index (drop (le + 1) data) [LF, LF] \<noteq> None \<and>
            rd (drop (le + 1) data) = Inr header \<and> 2 \<le> len_header header) \<and>
         adv = int c - 1))"
proof (induction rd data atEOF "end" curEnd rule: scanMessage_loop.induct)
  case (1 rd data atEOF "end" curEnd)
  show ?case
  proof (cases "findFroms (drop curEnd data)")
    case None
    with "1.prems"(1) have "atEOF" "adv = int (length data)" "tok = drop end data" "err = None"
      by (subst (asm) scanMessage_loop_unfold, simp split: if_splits)+
    with "1.prems"(2) show ?thesis by (intro conjI exI [of _ "length data"]) auto
  next
    case (Some r)
    obtain ps pe where r: "r = (ps, pe)" by (cases r)
    with Some have f: "findFroms (drop curEnd data) = Some (ps, pe)" by simp
    note c = findFroms_drop_candidate [OF f "1.prems"(3)]
    from "1.prems"(1) f have nn: "bytes_Index (drop (pe + curEnd) data) [LF, LF] \<noteq> None"
      by (subst (asm) scanMessage_loop_unfold) (auto split: if_splits)
    have inv: "end \<le> pe + curEnd \<and> pe + curEnd \<le> length data"
      "pe + curEnd = 0 \<or> data ! (pe + curEnd - 1) = LF"
      using "1.prems"(2) c(3,4) by auto
    have le1: "pe + curEnd - 1 + 1 = pe + curEnd" using c(2) by simp
    show ?thesis
    proof (cases "rd (drop (pe + curEnd) data)")
      case (Inl e)
      with "1.prems"(1) f nn have "scanMessage_loop rd data atEOF end (pe + curEnd) = (adv, Some tok, err)"
        by (subst (asm) scanMessage_loop_unfold) simp
      from "1.IH"(1) [OF Some r [symmetric] refl refl _ Inl this inv] nn show ?thesis by simp
    next
      case (Inr header)
      show ?thesis
      proof (cases "len_header header < 2")
        case True
        with Inr "1.prems"(1) f nn
        have "scanMessage_loop rd data atEOF end (pe + curEnd) = (adv, Some tok, err)"
          by (subst (asm) scanMessage_loop_unfold) simp
        from "1.IH"(2) [OF Some r [symmetric] refl refl _ Inr True this inv] nn show ?thesis by simp
      next
        case False
        with Inr "1.prems"(1) f nn
        have e: "adv = int (ps + curEnd) - 1" "tok = take (ps + curEnd - end) (drop end data)"
          "err = None"
          by (subst (asm) scanMessage_loop_unfold, auto)+
        have "\<exists>le header. separatorLineAt data (lineStart data (ps + curEnd)) le \<and>
            bytes_Index (drop (le + 1) data) [LF, LF] \<noteq> None \<and>
            rd (drop (le + 1) data) = Inr header \<and> 2 \<le> len_header header"
          using c(1) nn Inr False le1
          by (intro exI [of _ "pe + curEnd - 1"] exI [of _ header]) simp
        with e c(2,3) "1.prems"(2) show ?thesis
          by (intro conjI exI [of _ "ps + curEnd"]) auto
      qed
    qed
  qed
qed

lemma scanMessage_token:
  assumes "scanMessage rd data atEOF = (adv, Some tok, err)"
  shows "err = None \<and>
     (\<exists>end c. end \<le> c \<and> c \<le> length data \<and> tok = take (c - end) (drop end data) \<and>
        (atEOF \<and> c = length data \<and> adv = int (length data) \<or>
         (\<exists>le header. separatorLineAt data (lineStart data c) le \<and>
            bytes_Index (drop (le + 1) data) [LF, LF] \<noteq> None \<and>
            rd (drop (le + 1) data) = Inr header \<and> 2 \<le> len_header header) \<and>
         adv = int c - 1))"
proof -
  from assms obtain s e where f: "findFroms data = Some (s, e)"
    and l: "scanMessage_loop rd data atEOF e e = (adv, Some tok, err)"
    by (auto simp: scanMessage_def split: if_splits option.splits)
  from findFroms_candidate_line [OF f] have "data ! (e - 1) = LF" by (simp add: separatorLineAt_def)
  moreover from findFroms_bounds [OF f] have "e \<le> e \<and> e \<le> length data" by simp
  ultimately show ?thesis using scanMessage_loop_token [OF l] by blast
qed

lemma scanMessage_loop_no_error:
  "scanMessage_loop rd data atEOF end curEnd = (adv, tok, err) \<Longrightarrow> err = None"
proof (induction rd data atEOF "end" curEnd rule: scanMessage_loop.induct)
  case (1 rd data atEOF "end" curEnd)
  show ?case
  proof (cases "findFroms (drop curEnd data)")
    case None
    with "1.prems" show ?thesis
      by (subst (asm) scanMessage_loop_unfold) (simp split: if_splits)
  next
    case (Some r)
    obtain ps pe where r: "r = (ps, pe)" by (cases r)
    with Some have f: "findFroms (drop curEnd data) = Some (ps, pe)" by simp
    show ?thesis
    proof (cases "bytes_Index (drop (pe + curEnd) data) [LF, LF] = None")
      case True
      with "1.prems" f show ?thesis by (subst (asm) scanMessage_loop_unfold) simp
    next
      case nn: False
      show ?thesis
      proof (cases "rd (drop (pe + curEnd) data)")
        case (Inl e)
        with "1.prems"(1) f nn have "scanMessage_loop rd data atEOF end (pe + curEnd) = (adv, tok, err)"
          by (subst (asm) scanMessage_loop_unfold) simp
        from "1.IH"(1) [OF Some r [symmetric] refl refl _ Inl this] nn show ?thesis by simp
      next
        case (Inr header)
        show ?thesis
        proof (cases "len_header header < 2")
          case True
          with Inr "1.prems"(1) f nn
          have "scanMessage_loop rd data atEOF end (pe + curEnd) = (adv, tok, err)"
            by (subst (asm) scanMessage_loop_unfold) simp
          from "1.IH"(2) [OF Some r [symmetric] refl refl _ Inr True this] nn show ?thesis by simp
        next
          case False
          with Inr "1.prems"(1) f nn show ?thesis
            by (subst (asm) scanMessage_loop_unfold) auto
        qed
      qed
    qed
  qed
qed

lemma scanMessage_no_error:
  "scanMessage rd data atEOF = (adv, tok, err) \<Longrightarrow> err = None"
  by (auto simp: scanMessage_def split: if_splits option.splits dest: scanMessage_loop_no_error)

lemma scanMessage_atEOF_one_candidate:
  assumes "findFroms data = Some (s, e)" and "findFroms (drop e data) = None"
  shows "scanMessage rd data True = (int (length data), Some (drop e data), None)"
proof -
  from findFroms_bounds [OF assms(1)] have "data \<noteq> []" by auto
  with assms show ?thesis
    by (simp add: scanMessage_def scanMessage_loop_unfold [of rd data True e e])
qed

text \<open>A line break in front of a buffer that starts with a separator line.\<close>

lemma bytes_IndexByte_Cons:
  "x \<noteq> c \<Longrightarrow> bytes_IndexByte (x # xs) c = map_option Suc (bytes_IndexByte xs c)"
  by (simp add: bytes_IndexByte_def)











section \<open>Facts about the split function with a regular expression\<close>









lemma scanMessage_regexp_rest_atEOF:
  assumes "data = [] \<or> last data \<noteq> LF"
  shows "scanMessage_regexp_rest rd data True advanceExtra e
     = Return (advanceExtra, None, Some ErrInvalidMboxFormat)"
proof (cases "bytes_HasPrefix data ''From ''")
  case False
  then show ?thesis by (simp add: scanMessage_regexp_rest_def)
next
  case True
  then have "data \<noteq> []" by (auto simp: bytes_HasPrefix_def)
  with assms have "data ! (length data - 1) \<noteq> LF" by (simp add: last_conv_nth)
  then show ?thesis by (simp add: scanMessage_regexp_rest_def split: option.splits)
qed

lemma scanMessage_regexp_atEOF_no_line_break:
  assumes "data \<noteq> []" and "last data \<noteq> LF"
  shows "scanMessage_regexp rd data True
     = Return (if fromLine_loc data = 0 then 1 else 0, None, Some ErrInvalidMboxFormat)"
proof -
  have "drop 1 data = [] \<or> last (drop 1 data) \<noteq> LF"
    using assms by (cases "drop 1 data = []") (auto simp: last_drop)
  with assms show ?thesis
    by (simp add: scanMessage_regexp_def Let_def scanMessage_regexp_rest_atEOF)
qed







section \<open>Claims about the header-only split function\<close>

text \<open>
  C9 (amended): for a non-empty buffer, \<open>scanHeader\<close> at end of input returns the whole
  buffer as the token, whether or not it holds three consecutive line breaks; not at end
  of input it asks for more data (nothing consumed, no token) when the marker is absent,
  and otherwise consumes and returns the bytes up to and including the first marker.
\<close>

theorem scanHeader_cases:
  "data \<noteq> [] \<Longrightarrow>
     (atEOF \<longrightarrow> scanHeader data atEOF = (int (length data), Some data, None)) \<and>
     (\<not> atEOF \<longrightarrow> bytes_Index data [LF, LF, LF] = None \<longrightarrow>
        scanHeader data atEOF = (0, None, None)) \<and>
     (\<not> atEOF \<longrightarrow> (\<forall>e. bytes_Index data [LF, LF, LF] = Some e \<longrightarrow>
        scanHeader data atEOF = (int e + 3, Some (take e data @ [LF, LF, LF]), None)))"
proof -
  assume ne: "data \<noteq> []"
  have mk: "take (e + 3) data = take e data @ [LF, LF, LF]"
    if "bytes_Index data [LF, LF, LF] = Some e" for e
    using bytes_Index_take [OF that] by (simp add: eval_nat_numeral)
  show ?thesis
    using ne mk by (auto simp: scanHeader_def split: option.splits)
qed

text \<open>Witness for C9: a buffer with the marker, and one without, not at and at end of input.\<close>

theorem scanHeader_cases_witness:
  "''a\<newline>\<newline>\<newline>b'' \<noteq> [] \<and> bytes_Index ''a\<newline>\<newline>\<newline>b'' [LF, LF, LF] = Some 1 \<and>
   bytes_Index ''ab'' [LF, LF, LF] = None \<and>
   scanHeader ''a\<newline>\<newline>\<newline>b'' False = (4, Some ''a\<newline>\<newline>\<newline>'', None) \<and>
   scanHeader ''ab'' False = (0, None, None) \<and>
   scanHeader ''ab'' True = (2, Some ''ab'', None)"
  using scanHeader_cases [of "''a\<newline>\<newline>\<newline>b''" False] scanHeader_cases [of "''ab''" False]
    scanHeader_cases [of "''ab''" True]
  by simp

text \<open>
  C9 as stated fails: with the marker present and \<open>atEOF\<close> set, the token is the whole
  buffer, not the bytes up to and including the marker.
\<close>

theorem scanHeader_marker_atEOF_counterexample:
  "bytes_Index ''a\<newline>\<newline>\<newline>b'' [LF, LF, LF] = Some 1 \<and>
   scanHeader ''a\<newline>\<newline>\<newline>b'' True = (5, Some ''a\<newline>\<newline>\<newline>b'', None) \<and>
   scanHeader ''a\<newline>\<newline>\<newline>b'' True \<noteq> (4, Some ''a\<newline>\<newline>\<newline>'', None)"
  by (simp add: scanHeader_def)


section \<open>Claims about the Scanner\<close>

lemma Next_err_set:
  "sc_err sc = Some e \<Longrightarrow> Next readMessage sc = (False, sc\<lparr>sc_m := None\<rparr>)"
  by (simp add: Next_def)

lemma Next_times_err_set:
  "sc_err sc = Some e \<Longrightarrow> 0 < n \<Longrightarrow>
     Next_times readMessage n sc = (replicate n False, sc\<lparr>sc_m := None\<rparr>)"
proof (induction n arbitrary: sc)
  case 0
  then show ?case by simp
next
  case (Suc n)
  show ?case
  proof (cases n)
    case 0
    with Suc.prems show ?thesis by (simp add: Next_err_set)
  next
    case (Suc k)
    have "sc_err (sc\<lparr>sc_m := None\<rparr>) = Some e" using Suc.prems by simp
    from Suc.IH [OF this] Suc have "Next_times readMessage n (sc\<lparr>sc_m := None\<rparr>)
        = (replicate n False, sc\<lparr>sc_m := None\<rparr>)" by simp
    with Suc.prems show ?thesis by (simp add: Next_err_set)
  qed
qed

text \<open>
  C6: once the error field is set, any number of further calls of \<open>Next\<close> all return
  false; the state they leave is the one they found with the message cleared, whatever
  the split function and the message reader are (neither is called: the buffered
  scanner is untouched); \<open>Err\<close> still returns the same error and \<open>Message\<close> returns
  nil.
\<close>

theorem Next_sticky_error:
  "sc_err sc = Some e \<Longrightarrow> 0 < n \<Longrightarrow>
     Next_times readMessage n sc = (replicate n False, sc\<lparr>sc_m := None\<rparr>) \<and>
     Err (snd (Next_times readMessage n sc)) = Some e \<and>
     Message (snd (Next_times readMessage n sc)) = None \<and>
     sc_m (snd (Next_times readMessage n sc)) = None \<and>
     sc_s (snd (Next_times readMessage n sc)) = sc_s sc \<and>
     Location (snd (Next_times readMessage n sc)) = Location sc"
  using Next_times_err_set [of sc e n readMessage]
  by (simp add: Err_def Message_def Location_def)

text \<open>
  Witness for C6: a scanner over the example mailbox whose error field holds
  \<open>ErrInvalidMboxFormat\<close>, called three times.
\<close>

theorem Next_sticky_error_witness:
  "sc_err ((NewScanner acceptAll [mboxOne] False :: bytes Scanner)\<lparr>sc_err := Some ErrInvalidMboxFormat\<rparr>)
     = Some ErrInvalidMboxFormat \<and> (0::nat) < 3 \<and>
   fst (Next_times readAny 3
     ((NewScanner acceptAll [mboxOne] False)\<lparr>sc_err := Some ErrInvalidMboxFormat\<rparr>))
     = [False, False, False] \<and>
   Err (snd (Next_times readAny 3
     ((NewScanner acceptAll [mboxOne] False)\<lparr>sc_err := Some ErrInvalidMboxFormat\<rparr>)))
     = Some ErrInvalidMboxFormat \<and>
   Message (snd (Next_times readAny 3
     ((NewScanner acceptAll [mboxOne] False)\<lparr>sc_err := Some ErrInvalidMboxFormat\<rparr>)))
     = None"
proof -
  let ?sc = "(NewScanner acceptAll [mboxOne] False :: bytes Scanner)\<lparr>sc_err := Some ErrInvalidMboxFormat\<rparr>"
  have h: "sc_err ?sc = Some ErrInvalidMboxFormat" by simp
  have r: "replicate 3 False = [False, False, False]" by (simp add: eval_nat_numeral)
  from Next_sticky_error [OF h, of 3 readAny] r h show ?thesis
    by (simp add: Err_def Message_def)
qed

text \<open>
  C8 (amended): a call of \<open>Next\<close> whose scan yields a token adds the length of that
  token to the counter, whether or not the token then decodes; a call that finds the
  error field set, or whose scan yields no token, leaves the counter as it was. The
  counter is thus the total length of the tokens produced, not the number of bytes
  consumed from the stream.
\<close>

theorem Next_curByte:
  "(sc_err sc = None \<longrightarrow> Scan (sc_s sc) = (True, s') \<longrightarrow>
      Location (snd (Next readMessage sc)) = Location sc + int (length (Bytes s'))) \<and>
   (sc_err sc \<noteq> None \<or> \<not> fst (Scan (sc_s sc)) \<longrightarrow>
      Location (snd (Next readMessage sc)) = Location sc)"
  by (auto simp: Next_def Location_def Let_def split: prod.splits sum.splits bool.splits)

text \<open>Witness for C8: the first call on the example mailbox, and a call after an error.\<close>

theorem Next_curByte_witness:
  "sc_err (NewScanner acceptAll [mboxOne] False :: bytes Scanner) = None \<and>
   fst (Scan (sc_s (NewScanner acceptAll [mboxOne] False :: bytes Scanner))) \<and>
   Location (snd (Next readAny (NewScanner acceptAll [mboxOne] False))) =
     Location (NewScanner acceptAll [mboxOne] False :: bytes Scanner) +
     int (length (Bytes (snd (Scan (sc_s (NewScanner acceptAll [mboxOne] False :: bytes Scanner)))))) \<and>
   Location (snd (Next readAny
     ((NewScanner acceptAll [mboxOne] False)\<lparr>sc_err := Some ErrInvalidMboxFormat\<rparr>))) = 0"
proof -
  let ?sc = "NewScanner acceptAll [mboxOne] False :: bytes Scanner"
  have e: "sc_err ?sc = None" by (simp add: NewScanner_def)
  have f: "fst (Scan (sc_s ?sc))" by code_simp
  then have s: "Scan (sc_s ?sc) = (True, snd (Scan (sc_s ?sc)))"
    by (cases "Scan (sc_s ?sc)") simp
  have l: "Location (?sc\<lparr>sc_err := Some ErrInvalidMboxFormat\<rparr>) = 0"
    by (simp add: Location_def NewScanner_def)
  from Next_curByte [of ?sc "snd (Scan (sc_s ?sc))" readAny]
    Next_curByte [of "?sc\<lparr>sc_err := Some ErrInvalidMboxFormat\<rparr>" undefined readAny] e f s l
  show ?thesis by simp
qed

text \<open>
  C8 as stated fails: after the first call on the example mailbox all 26 bytes of the
  stream are consumed, and the counter is 14, the length of the token.
\<close>

theorem Next_curByte_counterexample:
  "fst (Next readAny (NewScanner acceptAll [mboxOne] False)) \<and>
   length mboxOne = 26 \<and>
   unconsumed (sc_s (snd (Next readAny (NewScanner acceptAll [mboxOne] False)))) = 0 \<and>
   Location (snd (Next readAny (NewScanner acceptAll [mboxOne] False))) = 14"
  by code_simp

section \<open>Claims about the candidate finder\<close>

text \<open>
  C2: every candidate that \<open>findFroms\<close> reports, in the scanner that returns the first
  candidate and in the one that returns all of them, is a line that starts with
  \<open>From \<close> at offset 0 or right after a line break, runs to the next line break, and
  whose last four characters satisfy the year heuristic. Consequently a token of
  \<open>scanMessage\<close> ends either at the end of the buffer, at end of input, or right before
  such a line: a line starting with \<open>From \<close> whose suffix fails the heuristic is never
  where a message is split.
\<close>

theorem findFroms_reports_separator_lines:
  "(\<forall>s e. findFroms data = Some (s, e) \<longrightarrow> separatorLineAt data (lineStart data s) (e - 1)) \<and>
   (\<forall>s nl. (s, nl) \<in> set (findFroms_list data) \<longrightarrow>
      separatorLineAt data (lineStart data s) nl) \<and>
   (\<forall>adv tok err. scanMessage rd data atEOF = (adv, Some tok, err) \<longrightarrow>
      (\<exists>end c. end \<le> c \<and> c \<le> length data \<and> tok = take (c - end) (drop end data) \<and>
         (atEOF \<and> c = length data \<and> adv = int (length data) \<or>
          (\<exists>le. separatorLineAt data (lineStart data c) le) \<and> adv = int c - 1)))"
proof (intro conjI allI impI)
  fix s e assume "findFroms data = Some (s, e)"
  then show "separatorLineAt data (lineStart data s) (e - 1)"
    by (rule findFroms_candidate_line)
next
  fix s nl assume "(s, nl) \<in> set (findFroms_list data)"
  moreover have "\<forall>fp. fromAt data 0 = Some fp \<longrightarrow> fromLineAt data fp"
    using fromAt_fromLineAt [of data 0] by simp
  ultimately show "separatorLineAt data (lineStart data s) nl"
    unfolding findFroms_list_def
    using findFroms_list_loop_candidates [of "fromAt data 0" data "[]" s nl] by simp
next
  fix adv tok err assume "scanMessage rd data atEOF = (adv, Some tok, err)"
  from scanMessage_token [OF this]
  show "\<exists>end c. end \<le> c \<and> c \<le> length data \<and> tok = take (c - end) (drop end data) \<and>
         (atEOF \<and> c = length data \<and> adv = int (length data) \<or>
          (\<exists>le. separatorLineAt data (lineStart data c) le) \<and> adv = int c - 1)"
    by blast
qed

text \<open>
  Witness for C2: in the two-message example both finders report the separator line
  at offset 0, the second candidate is the line at offset 29, and the first token ends
  right before it.
\<close>

theorem findFroms_reports_separator_lines_witness:
  "findFroms mboxTwo = Some (0, 12) \<and> separatorLineAt mboxTwo 0 11 \<and>
   (29, 40) \<in> set (findFroms_list mboxTwo) \<and> separatorLineAt mboxTwo 29 40 \<and>
   scanMessage acceptAll mboxTwo False = (27, Some (take 16 (drop 12 mboxTwo)), None) \<and>
   (\<exists>end c. end \<le> c \<and> c \<le> length mboxTwo \<and>
      take 16 (drop 12 mboxTwo) = take (c - end) (drop end mboxTwo) \<and>
      (False \<and> c = length mboxTwo \<and> (27::int) = int (length mboxTwo) \<or>
       (\<exists>le. separatorLineAt mboxTwo (lineStart mboxTwo c) le) \<and> (27::int) = int c - 1))"
proof -
  have f: "findFroms mboxTwo = Some (0, 12)" by code_simp
  have l: "(29, 40) \<in> set (findFroms_list mboxTwo)" by code_simp
  have s: "scanMessage acceptAll mboxTwo False = (27, Some (take 16 (drop 12 mboxTwo)), None)"
    by code_simp
  have ls: "lineStart mboxTwo 0 = 0" "lineStart mboxTwo 29 = 29" by code_simp+
  note t = findFroms_reports_separator_lines [of mboxTwo acceptAll False]
  from t f have a: "separatorLineAt mboxTwo (lineStart mboxTwo 0) (12 - 1)" by blast
  from t l have b: "separatorLineAt mboxTwo (lineStart mboxTwo 29) 40" by blast
  from t s have c: "\<exists>end c. end \<le> c \<and> c \<le> length mboxTwo \<and>
      take 16 (drop 12 mboxTwo) = take (c - end) (drop end mboxTwo) \<and>
      (False \<and> c = length mboxTwo \<and> (27::int) = int (length mboxTwo) \<or>
       (\<exists>le. separatorLineAt mboxTwo (lineStart mboxTwo c) le) \<and> (27::int) = int c - 1)"
    by blast
  from a b c f l s ls show ?thesis by simp
qed

section \<open>Claims about the message-mode split function\<close>

text \<open>
  What the loop of \<open>scanMessage\<close> does with a candidate whose following bytes hold a
  blank line: the bytes go to the header decoder; when it fails, or returns fewer than
  two fields, the loop goes on from the end of the candidate line, otherwise the token
  ends at the candidate. The split function returns no error, and a token that ends
  before the end of the buffer ends at a candidate whose header block decoded to at least
  two fields.
\<close>

lemma scanMessage_loop_validation:
  "(\<forall>ps pe. findFroms (drop curEnd data) = Some (ps, pe) \<longrightarrow>
      bytes_Index (drop (pe + curEnd) data) [LF, LF] \<noteq> None \<longrightarrow>
      (case rd (drop (pe + curEnd) data) of
         Inl e \<Rightarrow>
           scanMessage_loop rd data atEOF end curEnd = scanMessage_loop rd data atEOF end (pe + curEnd)
       | Inr header \<Rightarrow>
           if len_header header < 2
           then scanMessage_loop rd data atEOF end curEnd
                  = scanMessage_loop rd data atEOF end (pe + curEnd)
           else scanMessage_loop rd data atEOF end curEnd
                  = (int (ps + curEnd) - 1, Some (take (ps + curEnd - end) (drop end data)), None))) \<and>
   (\<forall>adv tok err. scanMessage rd data atEOF = (adv, tok, err) \<longrightarrow> err = None) \<and>
   (\<forall>adv tok err. scanMessage rd data atEOF = (adv, Some tok, err) \<longrightarrow> adv \<noteq> int (length data) \<longrightarrow>
      (\<exists>end c le header. tok = take (c - end) (drop end data) \<and> adv = int c - 1 \<and>
         separatorLineAt data (lineStart data c) le \<and>
         rd (drop (le + 1) data) = Inr header \<and> 2 \<le> len_header header))"
proof (intro conjI allI impI)
  fix ps pe
  assume f: "findFroms (drop curEnd data) = Some (ps, pe)"
    and nn: "bytes_Index (drop (pe + curEnd) data) [LF, LF] \<noteq> None"
  have step: "scanMessage_loop rd data atEOF end curEnd =
      (case rd (drop (pe + curEnd) data) of
         Inl err \<Rightarrow> scanMessage_loop rd data atEOF end (pe + curEnd)
       | Inr header \<Rightarrow>
           if len_header header < 2 then scanMessage_loop rd data atEOF end (pe + curEnd)
           else (int (ps + curEnd) - 1, Some (take (ps + curEnd - end) (drop end data)), None))"
    by (subst scanMessage_loop_unfold) (simp add: f nn)
  show "case rd (drop (pe + curEnd) data) of
         Inl e \<Rightarrow>
           scanMessage_loop rd data atEOF end curEnd = scanMessage_loop rd data atEOF end (pe + curEnd)
       | Inr header \<Rightarrow>
           if len_header header < 2
           then scanMessage_loop rd data atEOF end curEnd
                  = scanMessage_loop rd data atEOF end (pe + curEnd)
           else scanMessage_loop rd data atEOF end curEnd
                  = (int (ps + curEnd) - 1, Some (take (ps + curEnd - end) (drop end data)), None)"
    by (cases "rd (drop (pe + curEnd) data)") (simp_all add: step)
next
  fix adv tok err assume "scanMessage rd data atEOF = (adv, tok, err)"
  then show "err = None" by (rule scanMessage_no_error)
next
  fix adv tok err
  assume "scanMessage rd data atEOF = (adv, Some tok, err)" "adv \<noteq> int (length data)"
  with scanMessage_token [of rd data atEOF adv tok err]
  show "\<exists>end c le header. tok = take (c - end) (drop end data) \<and> adv = int c - 1 \<and>
         separatorLineAt data (lineStart data c) le \<and>
         rd (drop (le + 1) data) = Inr header \<and> 2 \<le> len_header header"
    by blast
qed

text \<open>
  C5: a candidate is to be accepted only if the bytes after it decode to a header of at
  least two fields; when the decoder fails or returns fewer fields, the search is to
  resume past the candidate without failing the scan. The code does so while the bytes
  after the candidate hold a blank line: in \<open>mboxOneField\<close> the quoted line, followed by
  one field, is passed over and the token runs to the next candidate, and in \<open>mboxTwo\<close>
  the candidate followed by two fields ends the token. It does not at the end of input
  when no blank line follows the candidate: on \<open>mboxQuotedEOF\<close> the bytes after the quoted
  line do not decode, yet \<open>scanMessage\<close> returns from its test for the blank line with
  nothing consumed and no token, where resuming past the candidate returns the message;
  \<open>Next\<close> then returns false with no error, and the message is never produced.
\<close>

theorem scanMessage_candidate_without_blank_line_at_EOF:
  "findFroms (drop 12 mboxQuotedEOF) = Some (15, 33) \<and>
   bytes_Index (drop 45 mboxQuotedEOF) [LF, LF] = None \<and>
   simpleDecoder (drop 45 mboxQuotedEOF) = Inl (ErrOther ''malformed MIME header line'') \<and>
   scanMessage simpleDecoder mboxQuotedEOF True = (0, None, None) \<and>
   scanMessage_loop simpleDecoder mboxQuotedEOF True 12 45
     = (49, Some (drop 12 mboxQuotedEOF), None) \<and>
   fst (Next readAny (NewScanner simpleDecoder [mboxQuotedEOF] False)) = False \<and>
   Err (snd (Next readAny (NewScanner simpleDecoder [mboxQuotedEOF] False))) = None \<and>
   Message (snd (Next readAny (NewScanner simpleDecoder [mboxQuotedEOF] False))) = None \<and>
   findFroms (drop 12 mboxOneField) = Some (16, 34) \<and>
   simpleDecoder (drop 46 mboxOneField) = Inr [(''Subject'', [''one''])] \<and>
   len_header [(''Subject'', [''one''])] = 1 \<and>
   scanMessage simpleDecoder mboxOneField False
     = (64, Some (take 53 (drop 12 mboxOneField)), None) \<and>
   findFroms (drop 12 mboxTwo) = Some (16, 29) \<and>
   simpleDecoder (drop 41 mboxTwo) = Inr [(''A'', [''x'']), (''B'', [''y''])] \<and>
   len_header [(''A'', [''x'']), (''B'', [''y''])] = 2 \<and>
   scanMessage simpleDecoder mboxTwo False = (27, Some (take 16 (drop 12 mboxTwo)), None)"
  by code_simp







end
